theory Spec2Isabelle
  imports Main "HOL-Library.AList"
begin

section \<open>Strings and whitespace\<close>

text \<open>
  Python strings are modelled as \<^typ>\<open>string\<close>. The regular expression class
  \<^verbatim>\<open>\s\<close> and \<^verbatim>\<open>str.strip()\<close> use the same whitespace test of the interpreter
  (\<^verbatim>\<open>str.isspace\<close>); on the code points below 256 it accepts the characters
  9 to 13, 28 to 32, 133 and 160.
\<close>

definition isspace :: "char \<Rightarrow> bool" where
  "isspace c =
     (c \<in> set [CHR 0x09, CHR 0x0A, CHR 0x0B, CHR 0x0C, CHR 0x0D, CHR 0x1C, CHR 0x1D, CHR 0x1E,
                CHR 0x1F, CHR 0x20, CHR 0x85, CHR 0xA0])"

definition strip :: "string \<Rightarrow> string" where
  "strip s = rev (dropWhile isspace (rev (dropWhile isspace s)))"

text \<open>
  \<^verbatim>\<open>re.sub(r"\s{2,}", " ", text)\<close>: the scan goes from left to right; where two
  or more whitespace characters start, the whole (greedy) run is replaced by one space,
  and every other character is copied.
\<close>

function re_sub_ws :: "string \<Rightarrow> string" where
  "re_sub_ws [] = []"
| "re_sub_ws [c] = [c]"
| "re_sub_ws (c # d # cs) =
     (if isspace c \<and> isspace d then CHR '' '' # re_sub_ws (dropWhile isspace cs)
      else c # re_sub_ws (d # cs))"
  by pat_completeness auto
termination
  by (relation "measure length") (auto simp: le_imp_less_Suc length_dropWhile_le less_Suc_eq_le le_SucI)

text \<open>The two properties of a normalised text, as executable tests.\<close>

fun has_ws_run :: "string \<Rightarrow> bool" where
  "has_ws_run (c # d # cs) = ((isspace c \<and> isspace d) \<or> has_ws_run (d # cs))"
| "has_ws_run [c] = False"
| "has_ws_run [] = False"

definition leading_ws :: "string \<Rightarrow> bool" where
  "leading_ws s = (case s of [] \<Rightarrow> False | c # _ \<Rightarrow> isspace c)"

definition trailing_ws :: "string \<Rightarrow> bool" where
  "trailing_ws s = leading_ws (rev s)"

section \<open>The parse tree\<close>

text \<open>
  The tree that the markup library builds: a node is a string or a tag with its name,
  its attributes (a dictionary in insertion order) and its children. A document is the
  list of the children of the root object, whose name is \<^verbatim>\<open>[document]\<close>.
\<close>

datatype node = NavigableString string | Tag string "(string \<times> string) list" "node list"

text \<open>
  The errors of a run: \<^verbatim>\<open>IndexError\<close> of the program's own indexing, and
  \<^verbatim>\<open>ParserRejectedMarkup\<close>, which the library raises for markup that its parser
  refuses. \<open>NotModelled\<close> is no error of the program: the model of the parser
  below answers it for markup beyond the part of the library that it describes.
\<close>

datatype error = IndexError | ParserRejectedMarkup | NotModelled

text \<open>
  The conversions between text and trees belong to the library, not to the program:
  \<^verbatim>\<open>BeautifulSoup(html, "html.parser")\<close>, which returns the tree or raises, and
  \<^verbatim>\<open>str(element)\<close> are parameters of the model, so that every general theorem
  holds for whatever the parser and the serialiser do.
\<close>

record bs4 =
  BeautifulSoup :: "string \<Rightarrow> error + node list"
  str :: "node \<Rightarrow> string"

text \<open>The value of the class attribute is a list of names separated by whitespace.\<close>

function split_ws :: "string \<Rightarrow> string list" where
  "split_ws s =
     (case dropWhile isspace s of
        [] \<Rightarrow> []
      | c # cs \<Rightarrow> takeWhile (\<lambda>x. \<not> isspace x) (c # cs) # split_ws (dropWhile (\<lambda>x. \<not> isspace x) cs))"
  by pat_completeness auto
termination
proof (relation "measure length", goal_cases)
  case 1
  show ?case by simp
next
  case (2 s c cs)
  have "length (dropWhile (\<lambda>x. \<not> isspace x) cs) \<le> length cs"
    by (rule length_dropWhile_le)
  moreover have "length (c # cs) \<le> length s"
    using length_dropWhile_le [of isspace s] 2 by simp
  ultimately show ?case by simp
qed

definition has_class :: "string \<Rightarrow> (string \<times> string) list \<Rightarrow> bool" where
  "has_class c as = (case map_of as ''class'' of None \<Rightarrow> False | Some v \<Rightarrow> c \<in> set (split_ws v))"

text \<open>\<^verbatim>\<open>get_text()\<close>: the strings of the subtree, in document order, joined.\<close>

fun get_text :: "node \<Rightarrow> string" where
  "get_text (NavigableString s) = s"
| "get_text (Tag n as cs) = concat (map get_text cs)"

text \<open>
  \<^verbatim>\<open>get_text(strip=True)\<close>: every string of the subtree is stripped on its own, and
  the strings that become empty are left out.
\<close>

fun stripped_strings :: "node \<Rightarrow> string list" where
  "stripped_strings (NavigableString s) = (if strip s = [] then [] else [strip s])"
| "stripped_strings (Tag n as cs) = concat (map stripped_strings cs)"

definition get_text_strip :: "node \<Rightarrow> string" where
  "get_text_strip e = concat (stripped_strings e)"

text \<open>
  \<^verbatim>\<open>for tag in soup.find_all(...): tag.decompose()\<close>: the list of matches is taken
  first, in document order, and each match is removed with its subtree; a match inside
  an earlier match is gone with it.
\<close>

fun decompose_all :: "(node \<Rightarrow> bool) \<Rightarrow> node \<Rightarrow> node" where
  "decompose_all p (NavigableString s) = NavigableString s"
| "decompose_all p (Tag n as cs) = Tag n as (map (decompose_all p) (filter (\<lambda>c. \<not> p c) cs))"

definition is_sup :: "node \<Rightarrow> bool" where
  "is_sup x = (case x of NavigableString _ \<Rightarrow> False | Tag n _ _ \<Rightarrow> n = ''sup'')"

definition is_chapternum :: "node \<Rightarrow> bool" where
  "is_chapternum x =
     (case x of NavigableString _ \<Rightarrow> False | Tag n as _ \<Rightarrow> n = ''span'' \<and> has_class ''chapternum'' as)"

text \<open>
  \<^verbatim>\<open>for tag in soup.find_all(["i", "em"]): tag.replace_with(f"*{tag.get_text()}*")\<close>:
  the outermost match is replaced by a string made of its text at that moment; a match
  nested in it is replaced afterwards inside the detached subtree, which the document
  no longer sees.
\<close>

fun replace_emphasis :: "node \<Rightarrow> node" where
  "replace_emphasis (NavigableString s) = NavigableString s"
| "replace_emphasis (Tag n as cs) =
     (if n = ''i'' \<or> n = ''em'' then NavigableString (''*'' @ get_text (Tag n as cs) @ ''*'')
      else Tag n as (map replace_emphasis cs))"

section \<open>The normaliser\<close>

text \<open>An error of the parser leaves the function as it is raised.\<close>

definition clean_text :: "bs4 \<Rightarrow> string \<Rightarrow> error + string" where
  "clean_text L html =
     (case BeautifulSoup L html of
        Inl e \<Rightarrow> Inl e
      | Inr soup \<Rightarrow>
          (let soup = map (decompose_all is_sup) (filter (\<lambda>c. \<not> is_sup c) soup);
               soup = map (decompose_all is_chapternum) (filter (\<lambda>c. \<not> is_chapternum c) soup);
               soup = map replace_emphasis soup;
               text = concat (map get_text soup)
           in Inr (strip (re_sub_ws text))))"

section \<open>The extractor\<close>

text \<open>
  An element of the output: the dictionary \<^verbatim>\<open>{"type": "subtitle", "text": t}\<close> or
  \<^verbatim>\<open>{"type": "verse", "verse_number": n, "text": t}\<close>.
\<close>

datatype element = Subtitle string | Verse string string

text \<open>
  \<^verbatim>\<open>soup.select(".passage-content .text, h3 .text")\<close>: the tags of class
  \<^verbatim>\<open>text\<close> that have an ancestor of class \<^verbatim>\<open>passage-content\<close> or an ancestor
  named \<^verbatim>\<open>h3\<close>, each once, in document order. The loop reads the name of the
  parent of each selected tag, so the selection carries it along.
\<close>

fun select_in :: "bool \<Rightarrow> string \<Rightarrow> node \<Rightarrow> (string \<times> node) list" where
  "select_in inside parent (NavigableString s) = []"
| "select_in inside parent (Tag n as cs) =
     (if inside \<and> has_class ''text'' as then [(parent, Tag n as cs)] else []) @
     concat (map (select_in (inside \<or> has_class ''passage-content'' as \<or> n = ''h3'') n) cs)"

definition select_text :: "node list \<Rightarrow> (string \<times> node) list" where
  "select_text soup = concat (map (select_in False ''[document]'') soup)"

text \<open>\<^verbatim>\<open>element.select_one(".versenum")\<close>: the first descendant of that class.\<close>

fun find_class :: "string \<Rightarrow> node list \<Rightarrow> node option" where
  "find_class c [] = None"
| "find_class c (NavigableString s # xs) = find_class c xs"
| "find_class c (Tag n as cs # xs) =
     (if has_class c as then Some (Tag n as cs)
      else (case find_class c cs of Some t \<Rightarrow> Some t | None \<Rightarrow> find_class c xs))"

definition select_one :: "string \<Rightarrow> node \<Rightarrow> node option" where
  "select_one c e = (case e of NavigableString _ \<Rightarrow> None | Tag _ _ cs \<Rightarrow> find_class c cs)"

text \<open>\<^verbatim>\<open>element.name == "span" and element.parent.name == "h3"\<close>\<close>

definition is_heading :: "string \<times> node \<Rightarrow> bool" where
  "is_heading x =
     (case snd x of NavigableString _ \<Rightarrow> False | Tag n _ _ \<Rightarrow> n = ''span'' \<and> fst x = ''h3'')"

text \<open>
  \<^verbatim>\<open>re.sub(f"^{re.escape(verse_number)}", "", cleaned_text)\<close>: the pattern is the
  literal string, anchored at the start, so at most the one occurrence there goes.
\<close>

definition remove_prefix :: "string \<Rightarrow> string \<Rightarrow> string" where
  "remove_prefix p s = (if take (length p) s = p then drop (length p) s else s)"

text \<open>\<^verbatim>\<open>elements[-1]\<close> raises on an empty list.\<close>

definition last_element :: "element list \<Rightarrow> error + element" where
  "last_element es = (if es = [] then Inl IndexError else Inr (last es))"

fun is_verse :: "element \<Rightarrow> bool" where
  "is_verse (Verse n t) = True"
| "is_verse (Subtitle t) = False"

fun add_text :: "string \<Rightarrow> element \<Rightarrow> element" where
  "add_text s (Verse n t) = Verse n (t @ s)"
| "add_text s (Subtitle t) = Subtitle (t @ s)"

text \<open>
  The body of the loop, on the state \<open>(elements, first_verse_found)\<close>. The text of
  the node is cleaned in every branch, and an error of the parser there ends the loop.
  In the last branch \<^verbatim>\<open>elements and ...\<close> stops at an empty list before
  \<^verbatim>\<open>elements[-1]\<close> is read.
\<close>

fun process_node ::
  "bs4 \<Rightarrow> string \<times> node \<Rightarrow> element list \<times> bool \<Rightarrow> error + element list \<times> bool" where
  "process_node L (parent, element) (elements, first_verse_found) =
     (if is_heading (parent, element) then
        (case clean_text L (str L element) of
           Inl e \<Rightarrow> Inl e
         | Inr text \<Rightarrow> Inr (elements @ [Subtitle text], first_verse_found))
      else
        let verse_tag = select_one ''versenum'' element
        in (case clean_text L (str L element) of
              Inl e \<Rightarrow> Inl e
            | Inr cleaned_text \<Rightarrow>
                (case verse_tag of
                   Some vt \<Rightarrow>
                     let verse_number = get_text_strip vt;
                         verse_content = strip (remove_prefix verse_number cleaned_text)
                     in Inr (elements @ [Verse verse_number verse_content], True)
                 | None \<Rightarrow>
                     if \<not> first_verse_found then
                       Inr (elements @ [Verse ''1'' (strip cleaned_text)], True)
                     else if elements = [] then Inr (elements, first_verse_found)
                     else
                       (case last_element elements of
                          Inl e \<Rightarrow> Inl e
                        | Inr l \<Rightarrow>
                            if is_verse l then
                              Inr (butlast elements @ [add_text ('' '' @ cleaned_text) l],
                                   first_verse_found)
                            else Inr (elements, first_verse_found)))))"

fun for_each ::
  "bs4 \<Rightarrow> (string \<times> node) list \<Rightarrow> element list \<times> bool \<Rightarrow> error + element list \<times> bool" where
  "for_each L [] st = Inr st"
| "for_each L (x # xs) st =
     (case process_node L x st of Inl e \<Rightarrow> Inl e | Inr st' \<Rightarrow> for_each L xs st')"

text \<open>
  With \<^verbatim>\<open>verbose\<close> the function prints a summary; the lines printed so far are the
  only state outside the function that it touches, and they are passed through.
\<close>

fun label :: "element \<Rightarrow> string" where
  "label (Subtitle t) = ''Subtitle''"
| "label (Verse n t) = ''Verse '' @ n"

fun text_of :: "element \<Rightarrow> string" where
  "text_of (Subtitle t) = t"
| "text_of (Verse n t) = t"

definition verbose_lines :: "element list \<Rightarrow> string list" where
  "verbose_lines es =
     ''== Parsed Chapter =='' # map (\<lambda>e. label e @ '': '' @ take 40 (text_of e) @ ''...'') es"

definition parse_chapter ::
  "bs4 \<Rightarrow> string \<Rightarrow> bool \<Rightarrow> string list \<Rightarrow> (error + element list) \<times> string list" where
  "parse_chapter L html verbose out =
     (case BeautifulSoup L html of
        Inl e \<Rightarrow> (Inl e, out)
      | Inr soup \<Rightarrow>
          (case for_each L (select_text soup) ([], False) of
             Inl e \<Rightarrow> (Inl e, out)
           | Inr (elements, first_verse_found) \<Rightarrow>
               (Inr elements, if verbose then out @ verbose_lines elements else out)))"

section \<open>A model of the library on plain documents\<close>

text \<open>
  For concrete documents the parameters are instantiated with a model of the library:
  the \<^verbatim>\<open>html.parser\<close> of Python 3.11 behind the tree builder, and the serialiser.
  The model describes the library on documents made of
  \<^item> text, where a \<^verbatim>\<open><\<close> that is followed by no letter, \<^verbatim>\<open>/\<close>, \<^verbatim>\<open>!\<close> or
    \<^verbatim>\<open>?\<close> and an \<^verbatim>\<open>&\<close> that is followed by no letter or \<^verbatim>\<open>#\<close> are text too;
  \<^item> the character references \<^verbatim>\<open>&amp;\<close>, \<^verbatim>\<open>&lt;\<close>, \<^verbatim>\<open>&gt;\<close> and
    \<^verbatim>\<open>&quot;\<close>, and a name after \<^verbatim>\<open>&\<close> that runs to the end of the input;
  \<^item> start tags \<^verbatim>\<open><name key="value" ...>\<close> and \<^verbatim>\<open><name key="value" .../>\<close> with
    names of letters and digits, keys of letters, digits and hyphens, ASCII whitespace
    before each key, and values without \<^verbatim>\<open>&\<close>;
  \<^item> end tags \<^verbatim>\<open></name>\<close>;
  \<^item> a marked section \<^verbatim>\<open><![\<close> whose keyword the parser does not know, for which
    the library raises \<^verbatim>\<open>ParserRejectedMarkup\<close>.
  For every other markup (comments, declarations, processing instructions, numeric and
  other named references, other forms of tags, void elements, the elements whose text
  the library keeps apart, the attributes other than \<^verbatim>\<open>class\<close> that hold lists)
  the model answers \<open>NotModelled\<close> and says nothing about the library.
\<close>

definition is_alpha :: "char \<Rightarrow> bool" where
  "is_alpha c = (c \<in> set ''abcdefghijklmnopqrstuvwxyzABCDEFGHIJKLMNOPQRSTUVWXYZ'')"

definition is_alnum :: "char \<Rightarrow> bool" where
  "is_alnum c = (is_alpha c \<or> c \<in> set ''0123456789'')"

definition to_lower :: "char \<Rightarrow> char" where
  "to_lower c =
     (case map_of (zip ''ABCDEFGHIJKLMNOPQRSTUVWXYZ'' ''abcdefghijklmnopqrstuvwxyz'') c of
        Some l \<Rightarrow> l
      | None \<Rightarrow> c)"

definition is_ascii_ws :: "char \<Rightarrow> bool" where
  "is_ascii_ws c = (c \<in> set [CHR 0x20, CHR 0x09, CHR 0x0A, CHR 0x0C, CHR 0x0D])"

definition is_attr_char :: "char \<Rightarrow> bool" where
  "is_attr_char c = (is_alnum c \<or> c = CHR ''-'')"

definition is_ref_char :: "char \<Rightarrow> bool" where
  "is_ref_char c = (is_alnum c \<or> c = CHR ''-'' \<or> c = CHR ''.'')"

definition is_decl_char :: "char \<Rightarrow> bool" where
  "is_decl_char c = (is_alnum c \<or> c = CHR ''-'' \<or> c = CHR ''_'' \<or> c = CHR ''.'')"

text \<open>
  The names that the model leaves out: the void elements, the elements whose content
  the parser does not read as markup and those whose strings the library keeps in
  classes of their own; and the attributes, other than \<^verbatim>\<open>class\<close>, whose value the
  library splits into a list.
\<close>

definition outside_model_tags :: "string list" where
  "outside_model_tags =
     [''area'', ''base'', ''br'', ''col'', ''embed'', ''hr'', ''img'', ''input'', ''keygen'',
      ''link'', ''menuitem'', ''meta'', ''param'', ''source'', ''track'', ''wbr'',
      ''basefont'', ''bgsound'', ''command'', ''frame'', ''image'', ''isindex'', ''nextid'',
      ''spacer'', ''script'', ''style'', ''template'', ''rt'', ''rp'', ''title'',
      ''textarea'', ''plaintext'', ''xmp'', ''noscript'', ''noembed'', ''noframes'',
      ''iframe'']"

definition outside_model_attrs :: "string list" where
  "outside_model_attrs =
     [''accesskey'', ''dropzone'', ''rel'', ''rev'', ''headers'', ''accept-charset'',
      ''archive'', ''sizes'', ''sandbox'', ''for'']"

definition known_sections :: "string list" where
  "known_sections =
     [''temp'', ''cdata'', ''ignore'', ''include'', ''rcdata'', ''if'', ''else'', ''endif'']"

definition entity :: "string \<Rightarrow> char option" where
  "entity name =
     (if name = ''amp'' then Some (CHR ''&'')
      else if name = ''lt'' then Some (CHR ''<'')
      else if name = ''gt'' then Some (CHR ''>'')
      else if name = ''quot'' then Some (CHR 0x22)
      else None)"

fun join_sp :: "string list \<Rightarrow> string" where
  "join_sp [] = []"
| "join_sp [w] = w"
| "join_sp (w # v # ws) = w @ '' '' @ join_sp (v # ws)"

text \<open>
  The value of an attribute as the tree holds it: the list of names of a class, which
  the serialiser joins with single spaces, is kept in that joined form.
\<close>

definition attr_value :: "string \<Rightarrow> string \<Rightarrow> string" where
  "attr_value key v = (if key = ''class'' then join_sp (split_ws v) else v)"

text \<open>
  The attributes of a start tag, after its name, as a dictionary (a later value replaces
  an earlier one): the result is the attributes, whether the tag ends with
  \<^verbatim>\<open>/>\<close>, and the input after the tag.
\<close>

function scan_attrs ::
  "string \<Rightarrow> (string \<times> string) list \<Rightarrow> ((string \<times> string) list \<times> bool \<times> string) option" where
  "scan_attrs r acc =
     (case dropWhile is_ascii_ws r of
        [] \<Rightarrow> None
      | c # cs \<Rightarrow>
          if c = CHR ''>'' then Some (acc, False, cs)
          else if c = CHR ''/'' then
            (case cs of [] \<Rightarrow> None | d # ds \<Rightarrow> if d = CHR ''>'' then Some (acc, True, ds) else None)
          else if \<not> is_attr_char c \<or> dropWhile is_ascii_ws r = r then None
          else
            (case dropWhile is_attr_char (c # cs) of
               [] \<Rightarrow> None
             | [e] \<Rightarrow> None
             | e # q # vs \<Rightarrow>
                 if e = CHR ''='' \<and> q = CHR 0x22 \<and> dropWhile (\<lambda>x. x \<noteq> CHR 0x22) vs \<noteq> [] \<and>
                    CHR ''&'' \<notin> set (takeWhile (\<lambda>x. x \<noteq> CHR 0x22) vs) \<and>
                    map to_lower (takeWhile is_attr_char (c # cs)) \<notin> set outside_model_attrs
                 then
                   scan_attrs (tl (dropWhile (\<lambda>x. x \<noteq> CHR 0x22) vs))
                     (AList.update (map to_lower (takeWhile is_attr_char (c # cs)))
                        (attr_value (map to_lower (takeWhile is_attr_char (c # cs)))
                           (takeWhile (\<lambda>x. x \<noteq> CHR 0x22) vs))
                        acc)
                 else None))"
  by pat_completeness auto
termination
proof (relation "measure (\<lambda>(r, acc). length r)", goal_cases)
  case 1
  show ?case by simp
next
  case (2 r acc c cs e l q vs)
  have a: "length (c # cs) \<le> length r"
    using length_dropWhile_le [of is_ascii_ws r] 2 by simp
  have b: "length (e # q # vs) \<le> length (c # cs)"
    using length_dropWhile_le [of is_attr_char "c # cs"] 2 by simp
  have c: "length (tl (dropWhile (\<lambda>x. x \<noteq> CHR 0x22) vs)) \<le> length vs"
    using length_dropWhile_le [of "\<lambda>x. x \<noteq> CHR 0x22" vs] by simp
  from a b c show ?case by simp
qed

declare scan_attrs.simps [simp del]

lemma dropWhile_Cons_length: "dropWhile P xs = y # ys \<Longrightarrow> length ys < length xs"
  using length_dropWhile_le [of P xs] by simp

lemma scan_attrs_shorter:
  "scan_attrs r acc = Some (as, closed, rest) \<Longrightarrow> length rest < length r"
proof (induction r acc rule: scan_attrs.induct)
  case (1 r acc)
  note u = "1.prems" [unfolded scan_attrs.simps [of r acc]]
  show ?case
  proof (cases "dropWhile is_ascii_ws r")
    case Nil
    from u show ?thesis unfolding Nil by simp
  next
    case (Cons c cs)
    have a: "length cs < length r" using Cons by (rule dropWhile_Cons_length)
    show ?thesis
    proof (cases "c = CHR ''>''")
      case True
      from u a show ?thesis unfolding Cons using True by simp
    next
      case False
      note ngt = this
      show ?thesis
      proof (cases "c = CHR ''/''")
        case True
        from u a show ?thesis unfolding Cons using True ngt
          by (auto split: list.splits if_splits)
      next
        case False
        note nsl = this
        show ?thesis
        proof (cases "\<not> is_attr_char c \<or> c # cs = r")
          case True
          from u show ?thesis unfolding Cons using True ngt nsl by auto
        next
          case False
          note attr = this
          show ?thesis
          proof (cases "dropWhile is_attr_char (c # cs)")
            case Nil
            from u show ?thesis unfolding Cons list.case Nil using ngt nsl attr by simp
          next
            case outer: (Cons e l)
            show ?thesis
            proof (cases l)
              case Nil
              from u show ?thesis unfolding Cons list.case outer Nil using ngt nsl attr by simp
            next
              case inner: (Cons q vs)
              have b: "length l < length (c # cs)" using outer by (rule dropWhile_Cons_length)
              have c: "length (tl (dropWhile (\<lambda>x. x \<noteq> CHR 0x22) vs)) \<le> length vs"
                using length_dropWhile_le [of "\<lambda>x. x \<noteq> CHR 0x22" vs] by simp
              let ?key = "map to_lower (takeWhile is_attr_char (c # cs))"
              let ?go = "e = CHR ''='' \<and> q = CHR 0x22 \<and> dropWhile (\<lambda>x. x \<noteq> CHR 0x22) vs \<noteq> [] \<and>
                    CHR ''&'' \<notin> set (takeWhile (\<lambda>x. x \<noteq> CHR 0x22) vs) \<and>
                    ?key \<notin> set outside_model_attrs"
              show ?thesis
              proof (cases ?go)
                case False
                from u show ?thesis unfolding Cons list.case outer inner using ngt nsl attr False by auto
              next
                case True
                from u have "scan_attrs (tl (dropWhile (\<lambda>x. x \<noteq> CHR 0x22) vs))
                      (AList.update ?key (attr_value ?key (takeWhile (\<lambda>x. x \<noteq> CHR 0x22) vs)) acc) =
                    Some (as, closed, rest)"
                  unfolding Cons list.case outer inner using ngt nsl attr True by simp
                moreover have "\<not> (\<not> is_attr_char c \<or> dropWhile is_ascii_ws r = r)"
                  using attr Cons by simp
                ultimately have "length rest < length (tl (dropWhile (\<lambda>x. x \<noteq> CHR 0x22) vs))"
                  using "1.IH" [OF Cons ngt nsl _ outer [unfolded inner]] True by blast
                with a b c show ?thesis unfolding inner by simp
              qed
            qed
          qed
        qed
      qed
    qed
  qed
qed

text \<open>
  \<^verbatim>\<open><![\<close>: the parser reads a keyword and raises for a keyword that it does not
  know and for a missing one; the model leaves the keywords that the parser knows, and
  a keyword at the end of the input, aside.
\<close>

definition marked_section :: "string \<Rightarrow> error" where
  "marked_section ds =
     (if take 1 ds = ''['' then
        (case tl ds of
           [] \<Rightarrow> NotModelled
         | n # ns \<Rightarrow>
             if \<not> is_alpha n then ParserRejectedMarkup
             else if dropWhile isspace (dropWhile is_decl_char (n # ns)) = [] then NotModelled
             else if map to_lower (takeWhile is_decl_char (n # ns)) \<in> set known_sections
             then NotModelled
             else ParserRejectedMarkup)
      else NotModelled)"

text \<open>
  The events of the parser, in order: a start tag, a start tag that ends with
  \<^verbatim>\<open>/>\<close>, an end tag, or text. The first markup that the parser refuses, or that
  the model leaves out, ends the scan.
\<close>

datatype event =
  Data string | StartTag string "(string \<times> string) list"
  | StartEndTag string "(string \<times> string) list" | EndTag string

definition emit :: "event \<Rightarrow> error + event list \<Rightarrow> error + event list" where
  "emit ev r = (case r of Inl e \<Rightarrow> Inl e | Inr evs \<Rightarrow> Inr (ev # evs))"

function tokenize :: "string \<Rightarrow> error + event list" where
  "tokenize [] = Inr []"
| "tokenize (c # cs) =
     (if c = CHR ''<'' then
        (case cs of
           [] \<Rightarrow> Inr [Data ''<'']
         | d # ds \<Rightarrow>
             if is_alpha d then
               (case scan_attrs (dropWhile is_alnum cs) [] of
                  None \<Rightarrow> Inl NotModelled
                | Some (as, closed, rest) \<Rightarrow>
                    if map to_lower (takeWhile is_alnum cs) \<in> set outside_model_tags
                    then Inl NotModelled
                    else if closed
                    then emit (StartEndTag (map to_lower (takeWhile is_alnum cs)) as) (tokenize rest)
                    else emit (StartTag (map to_lower (takeWhile is_alnum cs)) as) (tokenize rest))
             else if d = CHR ''/'' then
               (case ds of
                  [] \<Rightarrow> Inl NotModelled
                | l # ls \<Rightarrow>
                    if is_alpha l then
                      (case dropWhile is_ascii_ws (dropWhile is_alnum ds) of
                         [] \<Rightarrow> Inl NotModelled
                       | g # rest \<Rightarrow>
                           if g = CHR ''>'' \<and>
                              map to_lower (takeWhile is_alnum ds) \<notin> set outside_model_tags
                           then emit (EndTag (map to_lower (takeWhile is_alnum ds))) (tokenize rest)
                           else Inl NotModelled)
                    else Inl NotModelled)
             else if d = CHR ''!'' then Inl (marked_section ds)
             else if d = CHR ''?'' then Inl NotModelled
             else emit (Data ''<'') (tokenize cs))
      else if c = CHR ''&'' then
        (case cs of
           [] \<Rightarrow> Inr [Data ''&'']
         | d # ds \<Rightarrow>
             if d = CHR ''#'' then Inl NotModelled
             else if is_alpha d then
               (case dropWhile is_ref_char cs of
                  [] \<Rightarrow>
                    if CHR ''-'' \<in> set cs \<or> CHR ''.'' \<in> set cs then Inl NotModelled
                    else Inr [Data (if ds = [] then cs else c # cs)]
                | t # ts \<Rightarrow>
                    (case entity (takeWhile is_ref_char cs) of
                       None \<Rightarrow> Inl NotModelled
                     | Some ch \<Rightarrow>
                         if t = CHR '';'' then emit (Data [ch]) (tokenize ts)
                         else emit (Data [ch]) (tokenize (t # ts))))
             else emit (Data ''&'') (tokenize cs))
      else emit (Data [c]) (tokenize cs))"
  by pat_completeness auto
termination
proof (relation "measure length", goal_cases)
  case 1
  show ?case by simp
next
  case (2 c cs d ds x2 as y closed rest)
  then have "scan_attrs (dropWhile is_alnum cs) [] = Some (as, closed, rest)" by simp
  then have "length rest < length (dropWhile is_alnum cs)" by (rule scan_attrs_shorter)
  with length_dropWhile_le [of is_alnum cs] show ?case by simp
next
  case (3 c cs d ds x2 as y closed rest)
  then have "scan_attrs (dropWhile is_alnum cs) [] = Some (as, closed, rest)" by simp
  then have "length rest < length (dropWhile is_alnum cs)" by (rule scan_attrs_shorter)
  with length_dropWhile_le [of is_alnum cs] show ?case by simp
next
  case (4 c cs d ds l ls g rest)
  from 4(7) have "length rest < length (dropWhile is_alnum ds)" by (rule dropWhile_Cons_length)
  with length_dropWhile_le [of is_alnum ds] 4(2,5) show ?case by simp
next
  case (5 c cs d ds)
  show ?case by simp
next
  case (6 c cs d ds t ts ch)
  from 6(6) have "length ts < length cs" by (rule dropWhile_Cons_length)
  then show ?case by simp
next
  case (7 c cs d ds t ts ch)
  from 7(6) have "length ts < length cs" by (rule dropWhile_Cons_length)
  then show ?case by simp
next
  case (8 c cs d ds)
  show ?case by simp
next
  case (9 c cs)
  show ?case by simp
qed

text \<open>
  The tree builder keeps the stack of open tags, the innermost first and the root object
  last; each holds its children so far, the latest first. Text is collected until the
  next tag and then added as one string; a string of ASCII whitespace only becomes one
  newline or one space, except inside \<^verbatim>\<open>pre\<close>. An end tag closes the innermost
  open tag of its name and the tags opened inside it, and is ignored when no such tag
  is open; the end of the input closes every open tag.
\<close>

type_synonym frame = "string \<times> (string \<times> string) list \<times> node list"

fun object_was_parsed :: "node \<Rightarrow> frame list \<Rightarrow> frame list" where
  "object_was_parsed x [] = []"
| "object_was_parsed x ((n, as, cs) # st) = (n, as, x # cs) # st"

definition endData :: "string \<Rightarrow> frame list \<Rightarrow> frame list" where
  "endData current_data st =
     (if current_data = [] then st
      else if (\<forall>c \<in> set current_data. is_ascii_ws c) \<and> ''pre'' \<notin> set (map fst st) then
        object_was_parsed
          (NavigableString (if CHR 0x0A \<in> set current_data then [CHR 0x0A] else '' '')) st
      else object_was_parsed (NavigableString current_data) st)"

fun popToTag :: "string \<Rightarrow> frame list \<Rightarrow> frame list" where
  "popToTag name ((n, as, cs) # (n', as', cs') # st) =
     (if n = name then (n', as', Tag n as (rev cs) # cs') # st
      else popToTag name ((n', as', Tag n as (rev cs) # cs') # st))"
| "popToTag name st = st"

definition handle_endtag :: "string \<Rightarrow> frame list \<Rightarrow> frame list" where
  "handle_endtag name st = (if name \<in> set (map fst (butlast st)) then popToTag name st else st)"

definition handle_starttag :: "string \<Rightarrow> (string \<times> string) list \<Rightarrow> frame list \<Rightarrow> frame list" where
  "handle_starttag name as st = (name, as, []) # st"

fun close_all :: "frame list \<Rightarrow> node list" where
  "close_all [] = []"
| "close_all [(n, as, cs)] = rev cs"
| "close_all ((n, as, cs) # (n', as', cs') # st) = close_all ((n', as', Tag n as (rev cs) # cs') # st)"

fun feed :: "event list \<Rightarrow> string \<Rightarrow> frame list \<Rightarrow> node list" where
  "feed [] current_data st = close_all (endData current_data st)"
| "feed (Data s # ts) current_data st = feed ts (current_data @ s) st"
| "feed (StartTag n as # ts) current_data st =
     feed ts [] (handle_starttag n as (endData current_data st))"
| "feed (StartEndTag n as # ts) current_data st =
     feed ts [] (handle_endtag n (handle_starttag n as (endData current_data st)))"
| "feed (EndTag n # ts) current_data st = feed ts [] (handle_endtag n (endData current_data st))"

definition html_parser :: "string \<Rightarrow> error + node list" where
  "html_parser html =
     (case tokenize html of
        Inl e \<Rightarrow> Inl e
      | Inr events \<Rightarrow> Inr (feed events [] [(''[document]'', [], [])]))"

text \<open>\<^verbatim>\<open>str(element)\<close>: the markup of a subtree, with the minimal escaping.\<close>

fun escape :: "string \<Rightarrow> string" where
  "escape [] = []"
| "escape (c # cs) =
     (if c = CHR ''&'' then ''&amp;'' else if c = CHR ''<'' then ''&lt;''
      else if c = CHR ''>'' then ''&gt;'' else [c]) @ escape cs"

definition attribute :: "string \<times> string \<Rightarrow> string" where
  "attribute kv = '' '' @ fst kv @ ''='' @ [CHR 0x22] @ escape (snd kv) @ [CHR 0x22]"

fun decode :: "node \<Rightarrow> string" where
  "decode (NavigableString s) = escape s"
| "decode (Tag n as cs) =
     ''<'' @ n @ concat (map attribute as) @ ''>'' @ concat (map decode cs) @ ''</'' @ n @ ''>''"

definition html_lib :: bs4 where
  "html_lib = \<lparr> BeautifulSoup = html_parser, str = decode \<rparr>"

section \<open>Reading nodes and elements\<close>

text \<open>
  The verse number of an element (a subtitle has none), whether a selected node holds a
  verse-number marker, the number the loop gives to a node that makes an element of its
  own (a heading makes a subtitle, a node with a marker makes a verse with the marker's
  text), the result of the normaliser on a selected node, and whether it is a text.
\<close>

fun verse_number_of :: "element \<Rightarrow> string option" where
  "verse_number_of (Subtitle t) = None"
| "verse_number_of (Verse n t) = Some n"

definition has_marker :: "string \<times> node \<Rightarrow> bool" where
  "has_marker x = (select_one ''versenum'' (snd x) \<noteq> None)"

definition node_number :: "string \<times> node \<Rightarrow> string option" where
  "node_number x =
     (if is_heading x then None else map_option get_text_strip (select_one ''versenum'' (snd x)))"

definition cleaned :: "bs4 \<Rightarrow> string \<times> node \<Rightarrow> error + string" where
  "cleaned L x = clean_text L (str L (snd x))"

definition cleans :: "bs4 \<Rightarrow> string \<times> node \<Rightarrow> bool" where
  "cleans L x = (case cleaned L x of Inl e \<Rightarrow> False | Inr t \<Rightarrow> True)"

text \<open>
  Trimming, in the words of the specification and without reference to \<open>strip\<close>:
  \<open>t\<close> is \<open>s\<close> trimmed when \<open>s\<close> is \<open>t\<close> between two runs of whitespace
  and \<open>t\<close> neither starts nor ends with whitespace. The strings of a subtree, in
  document order.
\<close>

definition is_trim_of :: "string \<Rightarrow> string \<Rightarrow> bool" where
  "is_trim_of s t \<longleftrightarrow>
     (\<exists>a b. s = a @ t @ b \<and> (\<forall>c \<in> set a. isspace c) \<and> (\<forall>c \<in> set b. isspace c)) \<and>
     \<not> leading_ws t \<and> \<not> trailing_ws t"

fun all_strings :: "node \<Rightarrow> string list" where
  "all_strings (NavigableString s) = [s]"
| "all_strings (Tag n as cs) = concat (map all_strings cs)"

section \<open>Concrete nodes and documents\<close>

text \<open>
  Selected nodes, each with the name of its parent: a verse whose marker holds two
  strings, a verse whose marker and text carry whitespace to trim, a verse whose marker
  stands inside a footnote, and a node without a marker.
\<close>

definition split_marker_node :: "string \<times> node" where
  \<open>split_marker_node = (''div'', Tag ''span'' [(''class'', ''text'')]
     [Tag ''span'' [(''class'', ''versenum'')]
        [NavigableString ''1 '', Tag ''b'' [] [NavigableString ''2'']],
      NavigableString '' word''])\<close>

definition spaced_marker_node :: "string \<times> node" where
  \<open>spaced_marker_node = (''div'', Tag ''span'' [(''class'', ''text'')]
     [Tag ''span'' [(''class'', ''versenum'')] [NavigableString '' 3 ''],
      NavigableString '' And God said ''])\<close>

definition footnote_marker_node :: "string \<times> node" where
  \<open>footnote_marker_node = (''div'', Tag ''span'' [(''class'', ''text'')]
     [Tag ''sup'' [] [Tag ''span'' [(''class'', ''versenum'')] [NavigableString ''2'']],
      NavigableString ''And the earth''])\<close>

definition continuation_node :: "string \<times> node" where
  \<open>continuation_node = (''div'', Tag ''span'' [(''class'', ''text'')]
     [NavigableString ''and God said''])\<close>


definition psalm_heading :: "string \<times> node" where
  \<open>psalm_heading = (''h3'', Tag ''span'' [(''class'', ''text'')] [NavigableString ''Psalm''])\<close>

definition psalm_first :: "string \<times> node" where
  \<open>psalm_first = (''div'', Tag ''span'' [(''class'', ''text'')]
     [NavigableString ''Blessed is the man''])\<close>

definition psalm_rest :: "(string \<times> node) list" where
  \<open>psalm_rest =
     [(''div'', Tag ''span'' [(''class'', ''text'')] [NavigableString ''who walks'']),
      (''div'', Tag ''span'' [(''class'', ''text'')]
         [Tag ''span'' [(''class'', ''versenum'')] [NavigableString ''1''],
          NavigableString ''again'']),
      (''div'', Tag ''span'' [(''class'', ''text'')] [NavigableString ''and more''])]\<close>

text \<open>
  Documents: a verse whose marker holds two strings; the fragment of the
  specification's scenario; a document whose tags are never closed, and the same with
  its end tags; a heading followed by a node without a marker, and its tree; and a
  chapter whose first verse has no marker, followed by a continuation, a verse with the
  marker 1 and another continuation, and its tree.
\<close>

definition split_marker_document :: string where
  \<open>split_marker_document = ''<div class="passage-content"><span class="text"><span class="versenum">1 <b>2</b></span> word</span></div>''\<close>

definition fragment :: string where
  \<open>fragment = ''<h3><span class="text">Heading</span></h3><span class="text"><sup>a</sup><span class="versenum">1</span>In the beginning...</span>''\<close>





definition unnumbered_first_verse :: string where
  \<open>unnumbered_first_verse = ''<div class="passage-content"><h3><span class="text">Psalm</span></h3><span class="text">Blessed is the man</span><span class="text">who walks</span><span class="text"><span class="versenum">1</span>again</span><span class="text">and more</span></div>''\<close>

definition unnumbered_first_verse_tree :: "node list" where
  \<open>unnumbered_first_verse_tree =
     [Tag ''div'' [(''class'', ''passage-content'')]
        (Tag ''h3'' [] [snd psalm_heading] # snd psalm_first # map snd psalm_rest)]\<close>

section \<open>Facts about whitespace normalisation\<close>

lemma has_ws_run_iff:
  "has_ws_run s \<longleftrightarrow> (\<exists>xs c d ys. s = xs @ c # d # ys \<and> isspace c \<and> isspace d)"
proof (induction s rule: has_ws_run.induct)
  case (1 c d cs)
  show ?case
  proof
    assume "has_ws_run (c # d # cs)"
    then consider "isspace c \<and> isspace d" | "has_ws_run (d # cs)" by auto
    then show "\<exists>xs c' d' ys. c # d # cs = xs @ c' # d' # ys \<and> isspace c' \<and> isspace d'"
    proof cases
      case 1
      then have "c # d # cs = [] @ c # d # cs \<and> isspace c \<and> isspace d" by simp
      then show ?thesis by blast
    next
      case 2
      with "1.IH" obtain xs c' d' ys where "d # cs = xs @ c' # d' # ys" "isspace c'" "isspace d'"
        by blast
      then have "c # d # cs = (c # xs) @ c' # d' # ys \<and> isspace c' \<and> isspace d'" by simp
      then show ?thesis by blast
    qed
  next
    assume "\<exists>xs c' d' ys. c # d # cs = xs @ c' # d' # ys \<and> isspace c' \<and> isspace d'"
    then obtain xs c' d' ys where e: "c # d # cs = xs @ c' # d' # ys" and sp: "isspace c'" "isspace d'"
      by blast
    show "has_ws_run (c # d # cs)"
    proof (cases xs)
      case Nil
      with e sp show ?thesis by simp
    next
      case (Cons x xs')
      with e have "d # cs = xs' @ c' # d' # ys" by simp
      with sp "1.IH" have "has_ws_run (d # cs)" by blast
      then show ?thesis by simp
    qed
  qed
next
  case (2 c)
  show ?case by (auto simp: Cons_eq_append_conv)
next
  case 3
  show ?case by simp
qed

lemma has_ws_run_rev: "has_ws_run (rev s) = has_ws_run s"
proof -
  have one: "has_ws_run t \<Longrightarrow> has_ws_run (rev t)" for t
  proof -
    assume "has_ws_run t"
    then obtain xs c d ys where "t = xs @ c # d # ys" "isspace c" "isspace d"
      unfolding has_ws_run_iff by blast
    then have "rev t = rev ys @ d # c # rev xs \<and> isspace d \<and> isspace c" by simp
    then show "has_ws_run (rev t)" unfolding has_ws_run_iff by blast
  qed
  from one [of s] one [of "rev s"] show ?thesis by auto
qed

lemma has_ws_run_suffix: "has_ws_run ys \<Longrightarrow> has_ws_run (xs @ ys)"
proof -
  assume "has_ws_run ys"
  then obtain us c d vs where "ys = us @ c # d # vs" "isspace c" "isspace d"
    unfolding has_ws_run_iff by blast
  then have "xs @ ys = (xs @ us) @ c # d # vs \<and> isspace c \<and> isspace d" by simp
  then show ?thesis unfolding has_ws_run_iff by blast
qed

lemma has_ws_run_dropWhile: "\<not> has_ws_run s \<Longrightarrow> \<not> has_ws_run (dropWhile P s)"
  using has_ws_run_suffix [of "dropWhile P s" "takeWhile P s"] by auto

lemma no_ws_run_strip: "\<not> has_ws_run s \<Longrightarrow> \<not> has_ws_run (strip s)"
  unfolding strip_def by (simp add: has_ws_run_rev has_ws_run_dropWhile)

lemma re_sub_ws_head:
  "\<not> isspace c \<Longrightarrow> re_sub_ws (c # cs) = c # re_sub_ws cs"
  by (cases cs) simp_all

lemma no_ws_run_Cons:
  "\<not> has_ws_run s \<Longrightarrow> \<not> (isspace c \<and> leading_ws s) \<Longrightarrow> \<not> has_ws_run (c # s)"
  by (cases s) (auto simp: leading_ws_def)

lemma leading_ws_re_sub_ws_dropWhile: "\<not> leading_ws (re_sub_ws (dropWhile isspace s))"
proof (cases "dropWhile isspace s")
  case Nil
  show ?thesis unfolding Nil by (simp add: leading_ws_def)
next
  case (Cons a as)
  then have "\<not> isspace a" using hd_dropWhile [of isspace s] by auto
  then show ?thesis unfolding Cons by (simp add: re_sub_ws_head leading_ws_def)
qed

lemma no_ws_run_re_sub_ws: "\<not> has_ws_run (re_sub_ws s)"
proof (induction s rule: re_sub_ws.induct)
  case 1
  show ?case by simp
next
  case (2 c)
  show ?case by simp
next
  case (3 c d cs)
  show ?case
  proof (cases "isspace c \<and> isspace d")
    case True
    with 3 have "\<not> has_ws_run (re_sub_ws (dropWhile isspace cs))" by simp
    then have "\<not> has_ws_run (CHR '' '' # re_sub_ws (dropWhile isspace cs))"
      by (rule no_ws_run_Cons) (simp add: leading_ws_re_sub_ws_dropWhile)
    with True show ?thesis by simp
  next
    case False
    with 3 have ih: "\<not> has_ws_run (re_sub_ws (d # cs))" by simp
    have "\<not> (isspace c \<and> leading_ws (re_sub_ws (d # cs)))"
    proof (cases "isspace d")
      case True
      with False have "\<not> isspace c" by simp
      then show ?thesis by simp
    next
      case False
      then show ?thesis by (simp add: re_sub_ws_head leading_ws_def)
    qed
    with ih have "\<not> has_ws_run (c # re_sub_ws (d # cs))" by (rule no_ws_run_Cons)
    with False show ?thesis by auto
  qed
qed

lemma leading_ws_dropWhile: "\<not> leading_ws (dropWhile isspace s)"
proof (cases "dropWhile isspace s")
  case Nil
  show ?thesis unfolding Nil by (simp add: leading_ws_def)
next
  case (Cons a as)
  then have "\<not> isspace a" using hd_dropWhile [of isspace s] by auto
  then show ?thesis unfolding Cons by (simp add: leading_ws_def)
qed

lemma trailing_ws_strip: "\<not> trailing_ws (strip s)"
  unfolding trailing_ws_def strip_def by (simp add: leading_ws_dropWhile)

lemma trailing_ws_dropWhile:
  "\<not> leading_ws t \<Longrightarrow> \<not> trailing_ws (rev (dropWhile isspace (rev t)))"
  unfolding trailing_ws_def by (simp add: leading_ws_dropWhile)

lemma leading_ws_strip: "\<not> leading_ws (strip s)"
proof (cases "dropWhile isspace s")
  case Nil
  show ?thesis unfolding strip_def Nil by (simp add: leading_ws_def)
next
  case (Cons a as)
  then have a: "\<not> isspace a" using hd_dropWhile [of isspace s] by auto
  have "dropWhile isspace (rev as @ [a]) = dropWhile isspace (rev as) @ [a]"
    using a by (simp add: dropWhile_append)
  then have "strip s = a # rev (dropWhile isspace (rev as))"
    unfolding strip_def Cons by simp
  with a show ?thesis by (simp add: leading_ws_def)
qed

lemma re_sub_ws_id: "\<not> has_ws_run s \<Longrightarrow> re_sub_ws s = s"
  by (induction s rule: re_sub_ws.induct) auto

lemma strip_id: "\<not> leading_ws s \<Longrightarrow> \<not> trailing_ws s \<Longrightarrow> strip s = s"
proof -
  assume l: "\<not> leading_ws s" and t: "\<not> trailing_ws s"
  have a: "dropWhile isspace s = s"
    using l by (cases s) (simp_all add: leading_ws_def)
  have b: "dropWhile isspace (rev s) = rev s"
    using t by (cases "rev s") (simp_all add: trailing_ws_def leading_ws_def)
  show ?thesis unfolding strip_def a b by simp
qed

text \<open>\<open>strip\<close> trims, and nothing else does.\<close>

lemma strip_is_trim: "is_trim_of s (strip s)"
proof -
  let ?u = "dropWhile isspace s"
  have "s = takeWhile isspace s @ ?u" by simp
  moreover have "rev (takeWhile isspace (rev ?u) @ dropWhile isspace (rev ?u)) = rev (rev ?u)"
    by (simp only: takeWhile_dropWhile_id)
  then have "?u = strip s @ rev (takeWhile isspace (rev ?u))"
    by (simp only: rev_append rev_rev_ident strip_def)
  ultimately have "s = takeWhile isspace s @ strip s @ rev (takeWhile isspace (rev ?u))"
    by simp
  moreover have "\<forall>c \<in> set (takeWhile isspace s). isspace c"
    by (auto dest: set_takeWhileD)
  moreover have "\<forall>c \<in> set (rev (takeWhile isspace (rev ?u))). isspace c"
    by (auto dest: set_takeWhileD)
  ultimately show ?thesis
    unfolding is_trim_of_def using leading_ws_strip [of s] trailing_ws_strip [of s] by blast
qed

lemma dropWhile_all: "\<forall>c \<in> set a. P c \<Longrightarrow> dropWhile P (a @ ys) = dropWhile P ys"
  by (induction a) simp_all

lemma trim_unique: "is_trim_of s t \<Longrightarrow> t = strip s"
proof -
  assume "is_trim_of s t"
  then obtain a b where s: "s = a @ t @ b" and a: "\<forall>c \<in> set a. isspace c"
    and b: "\<forall>c \<in> set b. isspace c" and l: "\<not> leading_ws t" and r: "\<not> trailing_ws t"
    unfolding is_trim_of_def by blast
  show ?thesis
  proof (cases t)
    case Nil
    then have "\<forall>c \<in> set s. isspace c" using s a b by auto
    then have d: "dropWhile isspace s = []" by simp
    show ?thesis unfolding Nil strip_def d by simp
  next
    case (Cons h tl)
    have 1: "dropWhile isspace s = t @ b"
      using l Cons unfolding s by (simp add: dropWhile_all [OF a] leading_ws_def)
    have "rev t \<noteq> []" using Cons by simp
    then obtain k ks where k: "rev t = k # ks" by (cases "rev t") auto
    then have nk: "\<not> isspace k" using r by (simp add: trailing_ws_def leading_ws_def)
    have "dropWhile isspace (rev (t @ b)) = dropWhile isspace (rev b @ rev t)" by simp
    also have "\<dots> = dropWhile isspace (rev t)" using b by (intro dropWhile_all) simp
    also have "\<dots> = rev t" using k nk by simp
    finally show ?thesis unfolding strip_def 1 by simp
  qed
qed

lemma get_text_strip_strings: "get_text_strip e = concat (map strip (all_strings e))"
proof -
  have "concat (stripped_strings e) = concat (map strip (all_strings e))"
  proof (induction e)
    case (NavigableString s)
    show ?case by simp
  next
    case (Tag n as cs)
    then show ?case by (induction cs) (simp_all add: map_concat)
  qed
  then show ?thesis by (simp add: get_text_strip_def)
qed

text \<open>The output of the normaliser, when it returns.\<close>

lemma clean_text_normal:
  assumes "clean_text L s = Inr t"
  shows "\<not> has_ws_run t" "\<not> leading_ws t" "\<not> trailing_ws t"
proof -
  from assms obtain x where t: "t = strip (re_sub_ws x)"
    by (auto simp: clean_text_def Let_def split: sum.splits)
  show "\<not> has_ws_run t" unfolding t by (intro no_ws_run_strip no_ws_run_re_sub_ws)
  show "\<not> leading_ws t" unfolding t by (rule leading_ws_strip)
  show "\<not> trailing_ws t" unfolding t by (rule trailing_ws_strip)
qed

lemma clean_text_plain:
  assumes "BeautifulSoup L t = Inr (if t = [] then [] else [NavigableString t])"
  shows "clean_text L t = Inr (strip (re_sub_ws t))"
  using assms by (simp add: clean_text_def Let_def is_sup_def is_chapternum_def)


section \<open>Facts about the loop\<close>

text \<open>An error of the parser on the markup of the node ends the loop body.\<close>

lemma process_node_error: "cleaned L x = Inl e \<Longrightarrow> process_node L x st = Inl e"
  by (cases x; cases st) (simp add: cleaned_def Let_def)

text \<open>The four branches of the loop body, one equation each.\<close>

lemma process_node_heading:
  "is_heading x \<Longrightarrow> cleaned L x = Inr t \<Longrightarrow>
   process_node L x (es, f) = Inr (es @ [Subtitle t], f)"
  by (cases x) (simp add: cleaned_def)

lemma process_node_marker:
  "\<not> is_heading x \<Longrightarrow> select_one ''versenum'' (snd x) = Some vt \<Longrightarrow> cleaned L x = Inr c \<Longrightarrow>
   process_node L x (es, f) =
     Inr (es @ [Verse (get_text_strip vt) (strip (remove_prefix (get_text_strip vt) c))], True)"
  by (cases x) (simp add: cleaned_def Let_def)

lemma process_node_implicit:
  "\<not> is_heading x \<Longrightarrow> select_one ''versenum'' (snd x) = None \<Longrightarrow> cleaned L x = Inr c \<Longrightarrow>
   process_node L x (es, False) = Inr (es @ [Verse ''1'' (strip c)], True)"
  by (cases x) (simp add: cleaned_def Let_def)

lemma process_node_continuation:
  "\<not> is_heading x \<Longrightarrow> select_one ''versenum'' (snd x) = None \<Longrightarrow> cleaned L x = Inr c \<Longrightarrow>
   process_node L x (es, True) =
     Inr (if es \<noteq> [] \<and> is_verse (last es)
          then butlast es @ [add_text ('' '' @ c) (last es)] else es, True)"
  by (cases x) (simp add: cleaned_def Let_def last_element_def)

text \<open>No branch raises: the only indexing is guarded by the test for the empty list.\<close>

lemma process_node_total: "cleaned L x = Inr c \<Longrightarrow> \<exists>st'. process_node L x st = Inr st'"
proof (cases st)
  case (Pair es f)
  assume c: "cleaned L x = Inr c"
  show ?thesis
  proof (cases "is_heading x")
    case True
    with c show ?thesis unfolding Pair by (auto simp: process_node_heading)
  next
    case False
    note nh = this
    show ?thesis
    proof (cases "select_one ''versenum'' (snd x)")
      case (Some vt)
      with nh c show ?thesis unfolding Pair by (auto simp: process_node_marker)
    next
      case None
      with nh c show ?thesis unfolding Pair
        by (cases f) (auto simp: process_node_implicit process_node_continuation)
    qed
  qed
qed

lemma process_node_Inl: "process_node L x st = Inl e \<Longrightarrow> cleaned L x = Inl e"
proof (cases "cleaned L x")
  case (Inl e')
  assume "process_node L x st = Inl e"
  with Inl show ?thesis by (simp add: process_node_error)
next
  case (Inr c)
  assume "process_node L x st = Inl e"
  with process_node_total [OF Inr, of st] show ?thesis by auto
qed

lemma for_each_Inl: "for_each L xs st = Inl e \<Longrightarrow> \<exists>x \<in> set xs. cleaned L x = Inl e"
proof (induction xs arbitrary: st)
  case Nil
  then show ?case by simp
next
  case (Cons x xs)
  show ?case
  proof (cases "process_node L x st")
    case (Inl e')
    with Cons.prems have "e' = e" by simp
    with Inl show ?thesis by (auto dest: process_node_Inl)
  next
    case (Inr st')
    with Cons.prems have "for_each L xs st' = Inl e" by simp
    with Cons.IH show ?thesis by auto
  qed
qed

lemma for_each_total: "\<forall>x \<in> set xs. cleans L x \<Longrightarrow> \<exists>st'. for_each L xs st = Inr st'"
proof (cases "for_each L xs st")
  case (Inl e)
  assume a: "\<forall>x \<in> set xs. cleans L x"
  from Inl obtain x where "x \<in> set xs" "cleaned L x = Inl e" by (auto dest: for_each_Inl)
  with a show ?thesis by (auto simp: cleans_def)
next
  case (Inr st')
  then show ?thesis by simp
qed

lemma for_each_append:
  "for_each L (xs @ ys) st =
     (case for_each L xs st of Inl e \<Rightarrow> Inl e | Inr st' \<Rightarrow> for_each L ys st')"
  by (induction xs arbitrary: st) (auto split: sum.splits)

lemma for_each_headings:
  "\<forall>h \<in> set hs. is_heading h \<Longrightarrow> map (cleaned L) hs = map Inr ts \<Longrightarrow>
   for_each L hs (es, f) = Inr (es @ map Subtitle ts, f)"
proof (induction hs arbitrary: es ts)
  case Nil
  then show ?case by simp
next
  case (Cons h hs)
  from Cons.prems(2) obtain t ts' where ts: "ts = t # ts'" and t: "cleaned L h = Inr t"
    and r: "map (cleaned L) hs = map Inr ts'" by (cases ts) auto
  from Cons.prems(1) have "is_heading h" "\<forall>h \<in> set hs. is_heading h" by simp_all
  with Cons.IH [OF _ r, of "es @ [Subtitle t]"] t show ?case
    by (simp add: process_node_heading ts)
qed

lemma cleans_Inr: "cleans L x \<Longrightarrow> \<exists>c. cleaned L x = Inr c"
  by (cases "cleaned L x") (simp_all add: cleans_def)

lemma cleans_texts: "\<forall>h \<in> set hs. cleans L h \<Longrightarrow> \<exists>ts. map (cleaned L) hs = map Inr ts"
proof (induction hs)
  case Nil
  show ?case by simp
next
  case (Cons h hs)
  then obtain ts where "map (cleaned L) hs = map Inr ts" by auto
  moreover from Cons.prems obtain t where "cleaned L h = Inr t" by (auto dest: cleans_Inr)
  ultimately have "map (cleaned L) (h # hs) = map Inr (t # ts)" by simp
  then show ?case by blast
qed

lemma verse_number_of_add_text: "verse_number_of (add_text s e) = verse_number_of e"
  by (cases e) simp_all

text \<open>
  Once \<open>first_verse_found\<close> is set it stays set, and from then on the elements
  added are those of the headings and of the nodes with a marker, in order.
\<close>

lemma for_each_numbers:
  "\<forall>x \<in> set xs. cleans L x \<Longrightarrow>
   \<exists>es'. for_each L xs (es, True) = Inr (es', True) \<and>
     map verse_number_of es' =
       map verse_number_of es @ map node_number (filter (\<lambda>x. is_heading x \<or> has_marker x) xs)"
proof (induction xs arbitrary: es)
  case Nil
  show ?case by simp
next
  case (Cons x xs)
  from Cons.prems obtain c where c: "cleaned L x = Inr c" by (auto dest: cleans_Inr)
  from Cons.prems have rest: "\<forall>x \<in> set xs. cleans L x" by simp
  note IH = Cons.IH [OF rest]
  show ?case
  proof (cases "is_heading x")
    case True
    from IH [of "es @ [Subtitle c]"] True c show ?thesis
      by (auto simp: process_node_heading node_number_def)
  next
    case False
    note nh = this
    show ?thesis
    proof (cases "select_one ''versenum'' (snd x)")
      case (Some vt)
      from IH [of "es @ [Verse (get_text_strip vt) (strip (remove_prefix (get_text_strip vt) c))]"]
        nh Some c show ?thesis
        by (auto simp: process_node_marker node_number_def has_marker_def)
    next
      case None
      let ?es1 = "if es \<noteq> [] \<and> is_verse (last es)
          then butlast es @ [add_text ('' '' @ c) (last es)] else es"
      have m: "map verse_number_of ?es1 = map verse_number_of es"
      proof (cases "es \<noteq> [] \<and> is_verse (last es)")
        case True
        then have "map verse_number_of es = map verse_number_of (butlast es @ [last es])" by simp
        also have "\<dots> = map verse_number_of (butlast es @ [add_text ('' '' @ c) (last es)])"
          by (simp add: verse_number_of_add_text)
        finally show ?thesis using True by simp
      next
        case False
        then show ?thesis by auto
      qed
      from IH [of ?es1] obtain es' where
        "for_each L xs (?es1, True) = Inr (es', True)"
        "map verse_number_of es' =
           map verse_number_of ?es1 @ map node_number (filter (\<lambda>x. is_heading x \<or> has_marker x) xs)"
        by blast
      with m nh None c show ?thesis
        by (simp add: process_node_continuation has_marker_def)
    qed
  qed
qed


lemma parse_chapter_result:
  "BeautifulSoup L html = Inr soup \<Longrightarrow>
   fst (parse_chapter L html verbose out) =
     (case for_each L (select_text soup) ([], False) of
        Inl e \<Rightarrow> Inl e | Inr st \<Rightarrow> Inr (fst st))"
  by (simp add: parse_chapter_def split: sum.splits prod.splits)

lemma parse_chapter_quiet:
  "snd (parse_chapter L html False out) = out"
  by (simp add: parse_chapter_def split: sum.splits prod.splits)

lemma parse_chapter_fst:
  "fst (parse_chapter L html verbose out) = fst (parse_chapter L html verbose' out')"
  by (simp add: parse_chapter_def split: sum.splits prod.splits)

section \<open>The normaliser's output\<close>

text \<open>
  Claim C9. For every input string for which \<open>clean_text\<close> returns a text, and
  whatever tree the parser builds from the input, that text has no two whitespace
  characters in a row, and neither starts nor ends with a whitespace character.
\<close>

theorem clean_text_whitespace:
  "clean_text L s = Inr t \<Longrightarrow> \<not> has_ws_run t \<and> \<not> leading_ws t \<and> \<not> trailing_ws t"
  by (intro conjI clean_text_normal)

theorem clean_text_whitespace_witness:
  "clean_text html_lib ''  In   the <b> beginning </b>  '' = Inr ''In the beginning'' \<and>
   \<not> has_ws_run ''In the beginning'' \<and> \<not> leading_ws ''In the beginning'' \<and>
   \<not> trailing_ws ''In the beginning''"
proof -
  have a: "clean_text html_lib ''  In   the <b> beginning </b>  '' = Inr ''In the beginning''"
    by code_simp
  have b: "\<not> has_ws_run ''In the beginning'' \<and> \<not> leading_ws ''In the beginning'' \<and>
           \<not> trailing_ws ''In the beginning''"
    using a by (rule clean_text_whitespace)
  show ?thesis by (rule conjI [OF a b])
qed

text \<open>
  Claim C2, as stated, at the text \<^verbatim>\<open>&amp;lt;\<close>: its normal form is \<^verbatim>\<open>&lt;\<close>,
  which \<open>clean_text\<close> reads as markup again and turns into \<^verbatim>\<open><\<close>.
\<close>

theorem clean_text_not_idempotent:
  "clean_text html_lib ''&amp;lt;'' = Inr ''&lt;'' \<and> clean_text html_lib ''&lt;'' = Inr ''<'' \<and>
   clean_text html_lib ''&lt;'' \<noteq> Inr ''&lt;''"
proof -
  have a: "clean_text html_lib ''&amp;lt;'' = Inr ''&lt;''" by code_simp
  have b: "clean_text html_lib ''&lt;'' = Inr ''<''" by code_simp
  from a b show ?thesis by simp
qed

text \<open>
  Claim C2, amended. \<open>clean_text\<close> takes markup, so its output is normalised again
  to itself where the parser reads that output back as one plain string: for every
  input \<open>s\<close> with normal form \<open>t = clean_text s\<close> that the parser reads as the
  text \<open>t\<close>, \<open>clean_text t = t\<close>.
\<close>

theorem clean_text_idempotent_on_plain_text:
  assumes "clean_text L s = Inr t"
    and "BeautifulSoup L t = Inr (if t = [] then [] else [NavigableString t])"
  shows "clean_text L t = Inr t"
proof -
  have n: "\<not> has_ws_run t" "\<not> leading_ws t" "\<not> trailing_ws t"
    using assms(1) by (rule clean_text_normal)+
  have "clean_text L t = Inr (strip (re_sub_ws t))" using assms(2) by (rule clean_text_plain)
  also have "strip (re_sub_ws t) = strip t" using n(1) by (simp add: re_sub_ws_id)
  also have "strip t = t" using n(2,3) by (rule strip_id)
  finally show ?thesis .
qed

theorem clean_text_idempotent_on_plain_text_witness:
  "clean_text html_lib ''<i>a</i>    b'' = Inr ''*a* b'' \<and>
   BeautifulSoup html_lib ''*a* b'' = Inr [NavigableString ''*a* b''] \<and>
   clean_text html_lib ''*a* b'' = Inr ''*a* b''"
proof -
  have a: "clean_text html_lib ''<i>a</i>    b'' = Inr ''*a* b''" by code_simp
  have b: "BeautifulSoup html_lib ''*a* b'' = Inr [NavigableString ''*a* b'']" by code_simp
  have c: "clean_text html_lib ''*a* b'' = Inr ''*a* b''"
    by (rule clean_text_idempotent_on_plain_text [OF a]) (simp add: b)
  from a b c show ?thesis by simp
qed

section \<open>The loop body\<close>

text \<open>
  Claim C6, as stated, at a marker that holds two strings,
  \<^verbatim>\<open><span class="versenum">1 <b>2</b></span>\<close>: the trimmed text of the marker is
  \<^verbatim>\<open>1 2\<close>, and the verse number that the extractor takes is \<^verbatim>\<open>12\<close>, for
  the document and for its one selected node.
\<close>

theorem marker_number_is_not_trimmed_text:
  "fst (parse_chapter html_lib split_marker_document False []) = Inr [Verse ''12'' ''1 2 word''] \<and>
   select_text (projr (BeautifulSoup html_lib split_marker_document)) = [split_marker_node] \<and>
   select_one ''versenum'' (snd split_marker_node) =
     Some (Tag ''span'' [(''class'', ''versenum'')]
             [NavigableString ''1 '', Tag ''b'' [] [NavigableString ''2'']]) \<and>
   strip (get_text (Tag ''span'' [(''class'', ''versenum'')]
             [NavigableString ''1 '', Tag ''b'' [] [NavigableString ''2'']])) = ''1 2'' \<and>
   process_node html_lib split_marker_node ([], False) = Inr ([Verse ''12'' ''1 2 word''], True)"
proof -
  have a: "fst (parse_chapter html_lib split_marker_document False []) =
             Inr [Verse ''12'' ''1 2 word'']" by code_simp
  have b: "select_text (projr (BeautifulSoup html_lib split_marker_document)) =
             [split_marker_node]" by code_simp
  have c: "select_one ''versenum'' (snd split_marker_node) =
     Some (Tag ''span'' [(''class'', ''versenum'')]
             [NavigableString ''1 '', Tag ''b'' [] [NavigableString ''2'']])" by code_simp
  have d: "strip (get_text (Tag ''span'' [(''class'', ''versenum'')]
             [NavigableString ''1 '', Tag ''b'' [] [NavigableString ''2'']])) = ''1 2''"
    by code_simp
  have e: "process_node html_lib split_marker_node ([], False) =
             Inr ([Verse ''12'' ''1 2 word''], True)" by code_simp
  from a b c d e show ?thesis by (intro conjI)
qed

text \<open>
  Claim C6, amended. A selected node that is not a heading and holds a verse-number
  marker makes a new verse and sets \<open>first_verse_found\<close>. Its number is made of the
  strings of the marker, each trimmed, joined in order (for a marker that holds one
  string, that string trimmed). Its text is the cleaned text of the node with that
  number removed from its start and then trimmed when the number is a prefix of the
  cleaned text, and the cleaned text unchanged when it is not.
\<close>

theorem marker_node_appends_verse:
  assumes "\<not> is_heading x" and "select_one ''versenum'' (snd x) = Some vt"
    and "clean_text L (str L (snd x)) = Inr c"
  shows "\<exists>vn t ps. process_node L x (es, f) = Inr (es @ [Verse vn t], True) \<and>
           list_all2 is_trim_of (all_strings vt) ps \<and> vn = concat ps \<and>
           (\<forall>s. all_strings vt = [s] \<longrightarrow> is_trim_of s vn) \<and>
           (if take (length vn) c = vn then is_trim_of (drop (length vn) c) t else t = c)"
proof -
  let ?vn = "get_text_strip vt"
  let ?t = "strip (remove_prefix ?vn c)"
  have c: "cleaned L x = Inr c" using assms(3) by (simp add: cleaned_def)
  have 1: "process_node L x (es, f) = Inr (es @ [Verse ?vn ?t], True)"
    using assms(1,2) c by (rule process_node_marker)
  have 2: "list_all2 is_trim_of (all_strings vt) (map strip (all_strings vt))"
    by (simp add: list_all2_conv_all_nth strip_is_trim)
  have 3: "?vn = concat (map strip (all_strings vt))" by (rule get_text_strip_strings)
  have 4: "\<forall>s. all_strings vt = [s] \<longrightarrow> is_trim_of s ?vn"
    by (simp add: 3 strip_is_trim)
  have "strip c = c" using clean_text_normal [OF assms(3)] by (intro strip_id)
  then have 5: "if take (length ?vn) c = ?vn then is_trim_of (drop (length ?vn) c) ?t else ?t = c"
    by (simp add: remove_prefix_def strip_is_trim)
  from 1 2 3 4 5 show ?thesis by blast
qed

theorem marker_node_appends_verse_witness:
  "\<not> is_heading spaced_marker_node \<and>
   select_one ''versenum'' (snd spaced_marker_node) =
     Some (Tag ''span'' [(''class'', ''versenum'')] [NavigableString '' 3 '']) \<and>
   clean_text html_lib (str html_lib (snd spaced_marker_node)) = Inr ''3 And God said'' \<and>
   process_node html_lib spaced_marker_node ([], False) = Inr ([Verse ''3'' ''And God said''], True) \<and>
   \<not> is_heading footnote_marker_node \<and>
   select_one ''versenum'' (snd footnote_marker_node) =
     Some (Tag ''span'' [(''class'', ''versenum'')] [NavigableString ''2'']) \<and>
   clean_text html_lib (str html_lib (snd footnote_marker_node)) = Inr ''And the earth'' \<and>
   process_node html_lib footnote_marker_node ([], False) = Inr ([Verse ''2'' ''And the earth''], True)"
proof -
  have a: "\<not> is_heading spaced_marker_node" by code_simp
  have b: "select_one ''versenum'' (snd spaced_marker_node) =
     Some (Tag ''span'' [(''class'', ''versenum'')] [NavigableString '' 3 ''])" by code_simp
  have c: "clean_text html_lib (str html_lib (snd spaced_marker_node)) = Inr ''3 And God said''"
    by code_simp
  have s: "all_strings (Tag ''span'' [(''class'', ''versenum'')] [NavigableString '' 3 '']) = ['' 3 '']"
    by simp
  have s3: "strip '' 3 '' = ''3''" by code_simp
  have d3: "strip '' And God said'' = ''And God said''" by code_simp
  from marker_node_appends_verse [OF a b c, of "[]" False] obtain vn t where
    p: "process_node html_lib spaced_marker_node ([], False) = Inr ([Verse vn t], True)"
    and v: "is_trim_of '' 3 '' vn"
    and t: "if take (length vn) ''3 And God said'' = vn
            then is_trim_of (drop (length vn) ''3 And God said'') t else t = ''3 And God said''"
    using s by auto
  from v have vn: "vn = ''3''" using trim_unique s3 by fastforce
  from t have "is_trim_of '' And God said'' t" unfolding vn by simp
  then have "t = ''And God said''" using trim_unique d3 by fastforce
  with p vn have 1: "process_node html_lib spaced_marker_node ([], False) =
     Inr ([Verse ''3'' ''And God said''], True)" by simp
  have a': "\<not> is_heading footnote_marker_node" by code_simp
  have b': "select_one ''versenum'' (snd footnote_marker_node) =
     Some (Tag ''span'' [(''class'', ''versenum'')] [NavigableString ''2''])" by code_simp
  have c': "clean_text html_lib (str html_lib (snd footnote_marker_node)) = Inr ''And the earth''"
    by code_simp
  have s': "all_strings (Tag ''span'' [(''class'', ''versenum'')] [NavigableString ''2'']) = [''2'']"
    by simp
  have s2: "strip ''2'' = ''2''" by code_simp
  from marker_node_appends_verse [OF a' b' c', of "[]" False] obtain vn' t' where
    p': "process_node html_lib footnote_marker_node ([], False) = Inr ([Verse vn' t'], True)"
    and v': "is_trim_of ''2'' vn'"
    and t': "if take (length vn') ''And the earth'' = vn'
            then is_trim_of (drop (length vn') ''And the earth'') t' else t' = ''And the earth''"
    using s' by auto
  from v' have vn': "vn' = ''2''" using trim_unique s2 by fastforce
  from t' have "t' = ''And the earth''" unfolding vn' by simp
  with p' vn' have 2: "process_node html_lib footnote_marker_node ([], False) =
     Inr ([Verse ''2'' ''And the earth''], True)" by simp
  from a b c 1 a' b' c' 2 show ?thesis by simp
qed

text \<open>
  Claim C5. When \<open>first_verse_found\<close> is set and the last element is a verse, a node
  without a marker that is not a heading, and whose markup the parser accepts, replaces
  the text of that verse by the text, one space and the cleaned text of the node; the
  sequence keeps its length.
\<close>

theorem continuation_appends_to_last_verse:
  assumes "\<not> is_heading x" and "select_one ''versenum'' (snd x) = None"
    and "clean_text L (str L (snd x)) = Inr c"
    and "es \<noteq> []" and "last es = Verse n t"
  shows "\<exists>es'. process_node L x (es, True) = Inr (es', True) \<and>
           es' = butlast es @ [Verse n (t @ '' '' @ c)] \<and>
           length es' = length es"
  using assms by (simp add: process_node_continuation cleaned_def)

theorem continuation_appends_to_last_verse_witness:
  "\<not> is_heading continuation_node \<and> select_one ''versenum'' (snd continuation_node) = None \<and>
   clean_text html_lib (str html_lib (snd continuation_node)) = Inr ''and God said'' \<and>
   [Subtitle ''Day one'', Verse ''3'' ''Then''] \<noteq> [] \<and>
   last [Subtitle ''Day one'', Verse ''3'' ''Then''] = Verse ''3'' ''Then'' \<and>
   process_node html_lib continuation_node ([Subtitle ''Day one'', Verse ''3'' ''Then''], True) =
     Inr ([Subtitle ''Day one'', Verse ''3'' ''Then and God said''], True)"
proof -
  have a: "\<not> is_heading continuation_node" by code_simp
  have b: "select_one ''versenum'' (snd continuation_node) = None" by code_simp
  have c: "clean_text html_lib (str html_lib (snd continuation_node)) = Inr ''and God said''"
    by code_simp
  have d: "[Subtitle ''Day one'', Verse ''3'' ''Then''] \<noteq> []" by simp
  have e: "last [Subtitle ''Day one'', Verse ''3'' ''Then''] = Verse ''3'' ''Then''" by simp
  from continuation_appends_to_last_verse [OF a b c d e] a b c d e show ?thesis
    by simp
qed

text \<open>
  Claim C8. The drop depends on the last element only: when \<open>first_verse_found\<close> is
  set and the last element is a subtitle, a node without a marker that is not a heading
  (and whose markup the parser accepts) leaves the sequence unchanged, whatever stands
  before the subtitle; and in every state with \<open>first_verse_found\<close> set such a node
  changes at most the last element.
\<close>

theorem continuation_looks_at_last_element_only:
  assumes "\<not> is_heading x" and "select_one ''versenum'' (snd x) = None"
    and "clean_text L (str L (snd x)) = Inr c"
  shows "(es \<noteq> [] \<and> \<not> is_verse (last es) \<longrightarrow> process_node L x (es, True) = Inr (es, True)) \<and>
         (\<exists>es'. process_node L x (es, True) = Inr (es', True) \<and>
                butlast es' = butlast es \<and> length es' = length es)"
  using assms by (simp add: process_node_continuation cleaned_def)

theorem continuation_looks_at_last_element_only_witness:
  "\<not> is_heading continuation_node \<and> select_one ''versenum'' (snd continuation_node) = None \<and>
   clean_text html_lib (str html_lib (snd continuation_node)) = Inr ''and God said'' \<and>
   [Verse ''1'' ''In the beginning'', Subtitle ''Heading''] \<noteq> [] \<and>
   \<not> is_verse (last [Verse ''1'' ''In the beginning'', Subtitle ''Heading'']) \<and>
   process_node html_lib continuation_node ([Verse ''1'' ''In the beginning'', Subtitle ''Heading''], True) =
     Inr ([Verse ''1'' ''In the beginning'', Subtitle ''Heading''], True)"
proof -
  have a: "\<not> is_heading continuation_node" by code_simp
  have b: "select_one ''versenum'' (snd continuation_node) = None" by code_simp
  have c: "clean_text html_lib (str html_lib (snd continuation_node)) = Inr ''and God said''"
    by code_simp
  from continuation_looks_at_last_element_only
         [OF a b c, of "[Verse ''1'' ''In the beginning'', Subtitle ''Heading'']"] a b c
  show ?thesis by simp
qed

section \<open>The extractor on documents\<close>




text \<open>
  Claim C4. Let the selected nodes of a document be some headings, then a node \<open>x\<close>
  that is not a heading and has no marker, then any nodes \<open>rest\<close>, and let the
  parser accept the document and the markup of each selected node. The output has one
  subtitle for each of those headings, then a verse numbered 1 for \<open>x\<close>, and after
  it exactly one element for each heading and each node with a marker of \<open>rest\<close>,
  numbered by its marker: no later node without a marker gets an element or a number of
  its own, whatever markers the later nodes carry.
\<close>

theorem implicit_first_verse_once:
  assumes "BeautifulSoup L html = Inr soup"
    and "select_text soup = hs @ x # rest"
    and "\<forall>h \<in> set hs. is_heading h"
    and "\<not> is_heading x" and "\<not> has_marker x"
    and "\<forall>y \<in> set (select_text soup). cleans L y"
  shows "\<exists>es. fst (parse_chapter L html False out) = Inr es \<and>
           map verse_number_of es =
             map (\<lambda>h. None) hs @ Some ''1'' #
             map node_number (filter (\<lambda>y. is_heading y \<or> has_marker y) rest)"
proof -
  from assms(2,6) have ch: "\<forall>h \<in> set hs. cleans L h" and cx: "cleans L x"
    and cr: "\<forall>y \<in> set rest. cleans L y" by simp_all
  from ch obtain ts where ts: "map (cleaned L) hs = map Inr ts" by (auto dest: cleans_texts)
  then have len: "length ts = length hs" by (metis length_map)
  from cx obtain c where c: "cleaned L x = Inr c" by (auto dest: cleans_Inr)
  let ?subs = "map Subtitle ts"
  let ?first = "Verse ''1'' (strip c)"
  have 1: "for_each L hs ([], False) = Inr (?subs, False)"
    using for_each_headings [OF assms(3) ts, of "[]" False] by simp
  have 2: "process_node L x (?subs, False) = Inr (?subs @ [?first], True)"
    using assms(4,5) c by (simp add: process_node_implicit has_marker_def)
  obtain es where 3: "for_each L rest (?subs @ [?first], True) = Inr (es, True)"
    and 4: "map verse_number_of es =
              map verse_number_of (?subs @ [?first]) @
              map node_number (filter (\<lambda>y. is_heading y \<or> has_marker y) rest)"
    using for_each_numbers [OF cr, of "?subs @ [?first]"] by blast
  have "for_each L (hs @ x # rest) ([], False) = Inr (es, True)"
    by (simp add: for_each_append 1 2 3)
  then have "fst (parse_chapter L html False out) = Inr es"
    by (simp add: parse_chapter_result [OF assms(1)] assms(2))
  moreover have "map verse_number_of ?subs = map (\<lambda>h. None) hs"
    using len by (simp add: comp_def map_replicate_const)
  then have "map verse_number_of (?subs @ [?first]) = map (\<lambda>h. None) hs @ [Some ''1'']"
    by simp
  ultimately show ?thesis using 4 by simp
qed

theorem implicit_first_verse_once_witness:
  "BeautifulSoup html_lib unnumbered_first_verse = Inr unnumbered_first_verse_tree \<and>
   select_text unnumbered_first_verse_tree = [psalm_heading] @ psalm_first # psalm_rest \<and>
   is_heading psalm_heading \<and> \<not> is_heading psalm_first \<and> \<not> has_marker psalm_first \<and>
   fst (parse_chapter html_lib unnumbered_first_verse False []) =
     Inr [Subtitle ''Psalm'', Verse ''1'' ''Blessed is the man who walks'',
          Verse ''1'' ''again and more''] \<and>
   (\<exists>es. fst (parse_chapter html_lib unnumbered_first_verse False []) = Inr es \<and>
     map verse_number_of es = [None, Some ''1'', Some ''1''])"
proof -
  have s: "BeautifulSoup html_lib unnumbered_first_verse = Inr unnumbered_first_verse_tree"
    by code_simp
  have a: "select_text unnumbered_first_verse_tree = [psalm_heading] @ psalm_first # psalm_rest"
    by code_simp
  have b: "is_heading psalm_heading" by code_simp
  have c: "\<not> is_heading psalm_first" by code_simp
  have d: "\<not> has_marker psalm_first" by code_simp
  have g: "\<forall>y \<in> set ([psalm_heading] @ psalm_first # psalm_rest). cleans html_lib y"
    by code_simp
  have e: "map (\<lambda>h. None) [psalm_heading] @ Some ''1'' #
             map node_number (filter (\<lambda>y. is_heading y \<or> has_marker y) psalm_rest) =
           [None, Some ''1'', Some ''1'']" by code_simp
  have f: "for_each html_lib ([psalm_heading] @ psalm_first # psalm_rest) ([], False) =
     Inr ([Subtitle ''Psalm'', Verse ''1'' ''Blessed is the man who walks'',
           Verse ''1'' ''again and more''], True)" by code_simp
  have r: "fst (parse_chapter html_lib unnumbered_first_verse False []) =
     Inr [Subtitle ''Psalm'', Verse ''1'' ''Blessed is the man who walks'',
          Verse ''1'' ''again and more'']"
    unfolding parse_chapter_result [OF s] a f by simp
  have b': "\<forall>h \<in> set [psalm_heading]. is_heading h" using b by simp
  have g': "\<forall>y \<in> set (select_text unnumbered_first_verse_tree). cleans html_lib y"
    unfolding a by (rule g)
  from implicit_first_verse_once [OF s a b' c d g', of "[]"] e
  have "\<exists>es. fst (parse_chapter html_lib unnumbered_first_verse False []) = Inr es \<and>
     map verse_number_of es = [None, Some ''1'', Some ''1'']" by simp
  with s a b c d r show ?thesis by simp
qed




text \<open>
  Claim C1, as stated: in the fragment the second \<^verbatim>\<open>span\<close> of class \<^verbatim>\<open>text\<close>
  lies neither inside an element of class \<^verbatim>\<open>passage-content\<close> nor inside an
  \<^verbatim>\<open>h3\<close>, so the selector leaves it out and the output is the subtitle alone.
\<close>

theorem fragment_outside_passage_content:
  "fst (parse_chapter html_lib fragment False []) = Inr [Subtitle ''Heading''] \<and>
   fst (parse_chapter html_lib fragment False []) \<noteq>
     Inr [Subtitle ''Heading'', Verse ''1'' ''In the beginning...'']"
proof -
  have "fst (parse_chapter html_lib fragment False []) = Inr [Subtitle ''Heading'']"
    by code_simp
  then show ?thesis by simp
qed

text \<open>
  Claim C1, amended. For the fragment inside an element of class
  \<^verbatim>\<open>passage-content\<close>, \<open>parse_chapter\<close> returns exactly the subtitle
  \<^verbatim>\<open>Heading\<close> and then the verse numbered 1 with the text
  \<^verbatim>\<open>In the beginning...\<close>.
\<close>

theorem fragment_inside_passage_content:
  \<open>parse_chapter html_lib (''<div class="passage-content">'' @ fragment @ ''</div>'') False out =
     (Inr [Subtitle ''Heading'', Verse ''1'' ''In the beginning...''], out)\<close>
proof -
  have \<open>fst (parse_chapter html_lib (''<div class="passage-content">'' @ fragment @ ''</div>'') False []) =
     Inr [Subtitle ''Heading'', Verse ''1'' ''In the beginning...'']\<close>
    by code_simp
  then have \<open>fst (parse_chapter html_lib (''<div class="passage-content">'' @ fragment @ ''</div>'') False out) =
     Inr [Subtitle ''Heading'', Verse ''1'' ''In the beginning...'']\<close>
    by (subst parse_chapter_fst [of _ _ _ _ False "[]"])
  then show ?thesis
    by (simp add: prod_eq_iff parse_chapter_quiet)
qed

end
